theory Spec2Isabelle
  imports Main "HOL-Library.Char_ord" "HOL-Library.List_Lexorder"
begin

section \<open>The filesystem collaborator\<close>

text \<open>
  Package walk (walk.go) iterates over an \<^verbatim>\<open>io/fs\<close> filesystem.  It uses the
  filesystem through two calls only, \<^verbatim>\<open>fs.Stat(fsys, root)\<close> in \<^verbatim>\<open>New\<close> and
  \<^verbatim>\<open>fs.ReadDir(fsys, path)\<close> in \<^verbatim>\<open>Next\<close>, and it joins paths with
  \<^verbatim>\<open>path.Join\<close>.  \<^verbatim>\<open>fs.FS\<close> is an interface, so a filesystem is modelled as
  the pair of functions the walker can observe.  Go errors are values; the package's own
  \<^verbatim>\<open>errUsage\<close> is kept apart from the errors a filesystem reports.
\<close>

datatype error = errUsage | FsError string

text \<open>What \<^verbatim>\<open>fs.FileInfo\<close> (from Stat) and \<^verbatim>\<open>fs.DirEntry\<close> (from ReadDir) expose
  to the walker: a name, the directory bit and the type bits of the mode.\<close>

record FileInfo =
  fi_Name :: string
  fi_IsDir :: bool
  fi_ModeType :: nat

record DirEntry =
  Name :: string
  IsDir :: bool
  Type :: nat

text \<open>\<^verbatim>\<open>type infoDirEntry struct{ f fs.FileInfo }\<close> with its methods Name, IsDir and
  Type (walk.go, lines 130-135): the view of a FileInfo as a DirEntry.\<close>

definition infoDirEntry :: "FileInfo \<Rightarrow> DirEntry" where
  "infoDirEntry f = \<lparr>Name = fi_Name f, IsDir = fi_IsDir f, Type = fi_ModeType f\<rparr>"

text \<open>\<^verbatim>\<open>fs.Stat\<close> returns a FileInfo or an error; \<^verbatim>\<open>fs.ReadDir\<close> returns the
  entries it found together with an optional error (entries may come with an error).\<close>

record FS =
  Stat :: "string \<Rightarrow> error + FileInfo"
  ReadDir :: "string \<Rightarrow> DirEntry list \<times> error option"

text \<open>The calls a walker issues on its filesystem, recorded so that a statement can say
  that no call was made.\<close>

datatype call = StatCall string | ReadDirCall string

subsection \<open>path.Join\<close>

text \<open>
  \<^verbatim>\<open>path.Join\<close> belongs to Go's standard library, not to this package.  It is
  written out here after its documentation: the non-empty elements are joined with a
  slash and the result is cleaned (empty and \<^verbatim>\<open>.\<close> elements are dropped, an inner
  \<^verbatim>\<open>..\<close> removes the element before it, a leading \<^verbatim>\<open>..\<close> of a rooted path is
  dropped, and the empty result is \<^verbatim>\<open>.\<close>).  The general theorems below never look
  inside it; only the concrete examples evaluate it.
\<close>

fun split_slash :: "string \<Rightarrow> string list" where
  "split_slash [] = [[]]"
| "split_slash (c # cs) =
     (if c = CHR ''/'' then [] # split_slash cs
      else (case split_slash cs of [] \<Rightarrow> [[c]] | x # xs \<Rightarrow> (c # x) # xs))"

fun clean_elems :: "bool \<Rightarrow> string list \<Rightarrow> string list \<Rightarrow> string list" where
  "clean_elems rooted out [] = out"
| "clean_elems rooted out (e # es) =
     (if e = [] \<or> e = ''.'' then clean_elems rooted out es
      else if e = ''..'' then
        (if out \<noteq> [] \<and> last out \<noteq> ''..'' then clean_elems rooted (butlast out) es
         else if rooted then clean_elems rooted out es
         else clean_elems rooted (out @ [e]) es)
      else clean_elems rooted (out @ [e]) es)"

fun join_slash :: "string list \<Rightarrow> string" where
  "join_slash [] = []"
| "join_slash [e] = e"
| "join_slash (e # es) = e @ ''/'' @ join_slash es"

definition Clean :: "string \<Rightarrow> string" where
  "Clean p =
     (if p = [] then ''.''
      else let rooted = (hd p = CHR ''/'');
               r = (if rooted then ''/'' else []) @ join_slash (clean_elems rooted [] (split_slash p))
           in if r = [] then ''.'' else r)"

definition Join :: "string \<Rightarrow> string \<Rightarrow> string" where
  "Join a b =
     (if a = [] \<and> b = [] then []
      else Clean (if a = [] then b else a @ ''/'' @ b))"

section \<open>The walker\<close>

text \<open>\<^verbatim>\<open>type visit struct\<close> (walk.go, lines 31-37).  The field \<open>info\<close> is an interface
  value: it is nil in the initial \<open>cur\<close>, and it wraps a nil FileInfo when Stat failed;
  both are \<open>None\<close> here, and calling IsDir on it panics.  The marks are slice lengths.\<close>

record visit =
  path :: string
  info :: "DirEntry option"
  err :: "error option"
  skipDir :: nat
  skipPar :: nat

text \<open>\<^verbatim>\<open>type Walker struct\<close> (walk.go, lines 24-29).  The stack is a Go slice that
  grows at its end: the last element is the top.  The filesystem is a reference to
  something the walker does not own; replacing the field \<open>fsys\<close> models a change of
  the backing filesystem between two calls.\<close>

record Walker =
  fsys :: FS
  cur :: visit
  stack :: "visit list"
  descend :: bool

text \<open>What can go wrong inside the package: a method call on a nil \<open>info\<close>, and a
  slice expression \<^verbatim>\<open>w.stack[:k]\<close> with \<open>k\<close> beyond the length of the stack.  Go
  panics on the second when \<open>k\<close> exceeds the capacity and otherwise re-exposes stale
  elements of the backing array; the capacity is the runtime's choice, so the model
  stops at this point instead of guessing.\<close>

datatype fault = NilDeref | BeyondLen

text \<open>\<^verbatim>\<open>func New(fsys fs.FS, root string) *Walker\<close> (walk.go, lines 40-47), with the
  Stat call it issues.\<close>

definition New :: "FS \<Rightarrow> string \<Rightarrow> Walker \<times> call list" where
  "New fs root =
     (let r = Stat fs root in
      (\<lparr>fsys = fs,
        cur = \<lparr>path = [], info = None, err = Some errUsage, skipDir = 0, skipPar = 0\<rparr>,
        stack = [\<lparr>path = root,
                   info = (case r of Inl e \<Rightarrow> None | Inr f \<Rightarrow> Some (infoDirEntry f)),
                   err = (case r of Inl e \<Rightarrow> Some e | Inr f \<Rightarrow> None),
                   skipDir = 0, skipPar = 0\<rparr>],
        descend = False\<rparr>,
       [StatCall root]))"

text \<open>The loop of Next (walk.go, lines 59-62): \<^verbatim>\<open>for i := len(dir) - 1; i >= 0; i--\<close>.
  The equation for \<open>Suc i\<close> is the iteration with Go's index \<open>i\<close>; \<open>st\<close> is
  \<^verbatim>\<open>w.stack\<close> as it grows, \<open>n\<close> the length taken before the loop.\<close>

fun push_children :: "string \<Rightarrow> DirEntry list \<Rightarrow> nat \<Rightarrow> nat \<Rightarrow> visit list \<Rightarrow> visit list" where
  "push_children p dir n 0 st = st"
| "push_children p dir n (Suc i) st =
     push_children p dir n i
       (st @ [\<lparr>path = Join p (Name (dir ! i)), info = Some (dir ! i), err = None,
               skipDir = length st, skipPar = n\<rparr>])"

text \<open>The body of the \<^verbatim>\<open>if\<close> in Next (walk.go, lines 57-67): read the directory,
  push the children, and on an error push \<open>cur\<close> again with the error set.\<close>

definition read_and_push :: "Walker \<Rightarrow> Walker" where
  "read_and_push w =
     (let (dir, e) = ReadDir (fsys w) (path (cur w));
          n = length (stack w);
          st = push_children (path (cur w)) dir n (length dir) (stack w)
      in case e of
           None \<Rightarrow> w\<lparr>stack := st\<rparr>
         | Some x \<Rightarrow> (let c = (cur w)\<lparr>err := Some x\<rparr> in w\<lparr>cur := c, stack := st @ [c]\<rparr>))"

text \<open>The condition and the \<^verbatim>\<open>if\<close> of Next (walk.go, lines 56-68).  The condition
  \<^verbatim>\<open>w.descend && w.cur.err == nil && w.cur.info.IsDir()\<close> is evaluated left to
  right; IsDir is reached only when the first two hold.\<close>

definition expand :: "Walker \<Rightarrow> fault + Walker \<times> call list" where
  "expand w =
     (if descend w \<and> err (cur w) = None then
        (case info (cur w) of
           None \<Rightarrow> Inl NilDeref
         | Some d \<Rightarrow>
             if IsDir d then Inr (read_and_push w, [ReadDirCall (path (cur w))])
             else Inr (w, []))
      else Inr (w, []))"

text \<open>The rest of Next (walk.go, lines 70-78).\<close>

definition pop :: "Walker \<Rightarrow> bool \<times> Walker" where
  "pop w =
     (if length (stack w) = 0 then (False, w\<lparr>descend := False\<rparr>)
      else (let i = length (stack w) - 1
            in (True, w\<lparr>cur := stack w ! i, stack := take i (stack w), descend := True\<rparr>)))"

text \<open>\<^verbatim>\<open>func (w *Walker) Next() bool\<close> (walk.go, lines 55-79): the result, the walker
  after the call, and the filesystem calls issued.\<close>

definition Next :: "Walker \<Rightarrow> fault + bool \<times> Walker \<times> call list" where
  "Next w =
     (case expand w of
        Inl f \<Rightarrow> Inl f
      | Inr (w1, cs) \<Rightarrow> (case pop w1 of (b, w2) \<Rightarrow> Inr (b, w2, cs)))"

text \<open>The accessors (walk.go, lines 85-112).\<close>

definition Path :: "Walker \<Rightarrow> string" where
  "Path w = path (cur w)"

definition Entry :: "Walker \<Rightarrow> DirEntry option" where
  "Entry w = info (cur w)"

definition Err :: "Walker \<Rightarrow> error option" where
  "Err w = err (cur w)"

text \<open>\<^verbatim>\<open>SkipDir\<close> and \<^verbatim>\<open>SkipParent\<close> (walk.go, lines 117-128).\<close>

definition SkipDir :: "Walker \<Rightarrow> fault + Walker" where
  "SkipDir w =
     (if skipDir (cur w) \<le> length (stack w)
      then Inr (w\<lparr>descend := False, stack := take (skipDir (cur w)) (stack w)\<rparr>)
      else Inl BeyondLen)"

definition SkipParent :: "Walker \<Rightarrow> fault + Walker" where
  "SkipParent w =
     (if skipPar (cur w) \<le> length (stack w)
      then Inr (w\<lparr>descend := False, stack := take (skipPar (cur w)) (stack w)\<rparr>)
      else Inl BeyondLen)"

section \<open>Clients\<close>

text \<open>
  The clients of the package are loops of the shape used throughout its tests,
  \<^verbatim>\<open>for walker.Next() { got = append(got, walker.Path()); if ... { walker.SkipDir() } }\<close>:
  after each successful Next the client looks at Path, Entry and Err and calls SkipDir,
  SkipParent or nothing.  The loop returns the events in the order they happened: the
  filesystem calls and the visits.  A walk of an endless tree never returns, which is
  the value \<open>None\<close>.
\<close>

datatype action = Continue | CallSkipDir | CallSkipParent

datatype event = Called call | Visited string "DirEntry option" "error option"

type_synonym client = "string \<Rightarrow> DirEntry option \<Rightarrow> error option \<Rightarrow> action"

definition act :: "action \<Rightarrow> Walker \<Rightarrow> fault + Walker" where
  "act a w = (case a of Continue \<Rightarrow> Inr w | CallSkipDir \<Rightarrow> SkipDir w | CallSkipParent \<Rightarrow> SkipParent w)"

definition seen :: "Walker \<Rightarrow> event" where
  "seen w = Visited (Path w) (Entry w) (Err w)"

definition prepend :: "event list \<Rightarrow> (event list \<times> fault option) option \<Rightarrow> (event list \<times> fault option) option" where
  "prepend es r = Option.bind r (\<lambda>(es', f). Some (es @ es', f))"

partial_function (option) run :: "client \<Rightarrow> Walker \<Rightarrow> (event list \<times> fault option) option" where
  "run pol w =
     (case Next w of
        Inl f \<Rightarrow> Some ([], Some f)
      | Inr (b, w1, cs) \<Rightarrow>
          if \<not> b then Some (map Called cs, None)
          else (case act (pol (Path w1) (Entry w1) (Err w1)) w1 of
                  Inl f \<Rightarrow> Some (map Called cs @ [seen w1], Some f)
                | Inr w2 \<Rightarrow>
                    Option.bind (run pol w2) (\<lambda>(es, f). Some (map Called cs @ [seen w1] @ es, f))))"

fun visited_paths :: "event list \<Rightarrow> string list" where
  "visited_paths [] = []"
| "visited_paths (Called c # es) = visited_paths es"
| "visited_paths (Visited p i e # es) = p # visited_paths es"

text \<open>Successive calls of Next, the filesystem being replaced before each one.\<close>

fun polls :: "FS list \<Rightarrow> Walker \<Rightarrow> (bool \<times> call list) list" where
  "polls [] w = []"
| "polls (g # gs) w =
     (case Next (w\<lparr>fsys := g\<rparr>) of
        Inl f \<Rightarrow> []
      | Inr (b, w1, cs) \<Rightarrow> (b, cs) # polls gs w1)"

text \<open>Operations a client can perform one after the other; between two of them the
  backing filesystem may change.\<close>

datatype op = OpNext | OpSkipDir | OpSkipParent | OpMutate FS

fun step :: "op \<Rightarrow> Walker \<Rightarrow> fault + Walker" where
  "step OpNext w = (case Next w of Inl f \<Rightarrow> Inl f | Inr (b, w1, cs) \<Rightarrow> Inr w1)"
| "step OpSkipDir w = SkipDir w"
| "step OpSkipParent w = SkipParent w"
| "step (OpMutate g) w = Inr (w\<lparr>fsys := g\<rparr>)"

fun steps :: "op list \<Rightarrow> Walker \<Rightarrow> fault + Walker" where
  "steps [] w = Inr w"
| "steps (x # xs) w = (case step x w of Inl f \<Rightarrow> Inl f | Inr w1 \<Rightarrow> steps xs w1)"

fun is_prune :: "op \<Rightarrow> bool" where
  "is_prune OpSkipDir = True"
| "is_prune OpSkipParent = True"
| "is_prune x = False"

text \<open>A sequence of operations prunes each visit at most once, and only a visit that
  Next has just produced: \<open>descend\<close> is set by a successful Next and cleared by
  SkipDir, SkipParent and a Next that returns false.\<close>

fun prunes_fresh :: "op list \<Rightarrow> Walker \<Rightarrow> bool" where
  "prunes_fresh [] w = True"
| "prunes_fresh (x # xs) w =
     ((if is_prune x then descend w else True) \<and>
      (case step x w of Inl f \<Rightarrow> True | Inr w1 \<Rightarrow> prunes_fresh xs w1))"

section \<open>Trees\<close>

text \<open>
  A finite directory tree: the entry of the node, and for a directory the children its
  listing returns, in the order of the listing, with the error of the listing if it has
  one.  The children and the error of a node that is not a directory are never looked
  at.  A filesystem shows the tree \<open>t\<close> at the path \<open>p\<close> when every directory of \<open>t\<close>
  is listed as \<open>t\<close> says, the children sitting at the joined paths.
\<close>

datatype tree = Node DirEntry "tree list" "error option"

fun entry_of :: "tree \<Rightarrow> DirEntry" where
  "entry_of (Node d cs e) = d"

definition child_path :: "string \<Rightarrow> tree \<Rightarrow> string" where
  "child_path q c = Join q (Name (entry_of c))"

fun represents :: "FS \<Rightarrow> string \<Rightarrow> tree \<Rightarrow> bool" where
  "represents fs p (Node d cs e) =
     (if IsDir d
      then ReadDir fs p = (map entry_of cs, e) \<and> (\<forall>c \<in> set cs. represents fs (child_path p c) c)
      else True)"

text \<open>The events of an unpruned walk of a tree: the visit of the node; for a directory
  the read, a second visit when the read reported an error, and the walks of the
  children in the order of the listing.\<close>

fun events :: "string \<Rightarrow> tree \<Rightarrow> event list" where
  "events p (Node d cs e) =
     Visited p (Some d) None #
     (if IsDir d
      then Called (ReadDirCall p) #
           (case e of None \<Rightarrow> [] | Some x \<Rightarrow> [Visited p (Some d) (Some x)]) @
           concat (map (\<lambda>c. events (child_path p c) c) cs)
      else [])"

definition forest_events :: "string \<Rightarrow> tree list \<Rightarrow> event list" where
  "forest_events q cs = concat (map (\<lambda>c. events (child_path q c) c) cs)"

text \<open>The pre-order listing of the paths of a tree, the children taken in the order of
  the listing, and the lexical one, the children taken in the order of their names.\<close>

fun preorder :: "string \<Rightarrow> tree \<Rightarrow> string list" where
  "preorder p (Node d cs e) =
     p # (if IsDir d then concat (map (\<lambda>c. preorder (child_path p c) c) cs) else [])"

fun lex_preorder :: "string \<Rightarrow> tree \<Rightarrow> string list" where
  "lex_preorder p (Node d cs e) =
     p # (if IsDir d
          then concat (map (\<lambda>c. lex_preorder (child_path p c) c)
                         (sort_key (\<lambda>c. Name (entry_of c)) cs))
          else [])"

fun error_free :: "tree \<Rightarrow> bool" where
  "error_free (Node d cs e) = (if IsDir d then e = None \<and> (\<forall>c \<in> set cs. error_free c) else True)"

text \<open>\<^verbatim>\<open>fs.ReadDir\<close> promises entries sorted by filename.\<close>

fun sorted_listings :: "tree \<Rightarrow> bool" where
  "sorted_listings (Node d cs e) =
     (if IsDir d
      then sorted (map (\<lambda>c. Name (entry_of c)) cs) \<and> (\<forall>c \<in> set cs. sorted_listings c)
      else True)"

text \<open>A client that lets every visit among the given events pass.\<close>

fun quiet :: "client \<Rightarrow> event list \<Rightarrow> bool" where
  "quiet pol [] = True"
| "quiet pol (Called c # es) = quiet pol es"
| "quiet pol (Visited p i e # es) = (pol p i e = Continue \<and> quiet pol es)"

section \<open>States of the walker\<close>

text \<open>What the loop of Next appends to a stack of length \<open>b\<close> for the entries of one
  listing, \<open>n\<close> being the length it recorded before the loop: the last entry first.\<close>

fun pushed :: "string \<Rightarrow> nat \<Rightarrow> nat \<Rightarrow> DirEntry list \<Rightarrow> visit list" where
  "pushed p n b [] = []"
| "pushed p n b (d # ds) =
     pushed p n b ds @
     [\<lparr>path = Join p (Name d), info = Some d, err = None, skipDir = b + length ds, skipPar = n\<rparr>]"

text \<open>A walker whose next call of Next reads no directory.\<close>

definition idle :: "Walker \<Rightarrow> bool" where
  "idle w =
     (if descend w \<and> err (cur w) = None
      then (case info (cur w) of None \<Rightarrow> False | Some d \<Rightarrow> \<not> IsDir d)
      else True)"

text \<open>A walker that has nothing but the stack \<open>s\<close> left to do.\<close>

definition resume :: "FS \<Rightarrow> visit list \<Rightarrow> Walker" where
  "resume fs s =
     \<lparr>fsys = fs,
      cur = \<lparr>path = [], info = None, err = Some errUsage, skipDir = 0, skipPar = 0\<rparr>,
      stack = s, descend = False\<rparr>"

text \<open>The shape of a visit record, and its place: a record at index \<open>i\<close> of the stack
  (or just popped from there) has marks within \<open>i\<close>.\<close>

definition shaped :: "visit \<Rightarrow> bool" where
  "shaped v =
     (skipPar v \<le> skipDir v \<and>
      (case err v of
         None \<Rightarrow> info v \<noteq> None
       | Some x \<Rightarrow> (case info v of None \<Rightarrow> True | Some d \<Rightarrow> IsDir d)))"

definition placed :: "nat \<Rightarrow> visit \<Rightarrow> bool" where
  "placed i v = (skipDir v \<le> i \<and> (if err v = None then skipDir v = i else True))"

definition marks_ok :: "Walker \<Rightarrow> bool" where
  "marks_ok w =
     (list_all shaped (cur w # stack w) \<and>
      list_all (\<lambda>i. placed i (stack w ! i)) [0..<length (stack w)] \<and>
      (if descend w then placed (length (stack w)) (cur w) else True))"

section \<open>The filesystems of the tests\<close>

text \<open>The tests of the package run on \<^verbatim>\<open>fstest.MapFS\<close> values.  A table of directory
  listings stands for such a value: Stat knows the directories of the table (the tests
  stat the root \<^verbatim>\<open>.\<close> only), ReadDir returns the listing of the table.\<close>

definition plain :: "string \<Rightarrow> DirEntry" where
  "plain n = \<lparr>Name = n, IsDir = False, Type = 0\<rparr>"

definition folder :: "string \<Rightarrow> DirEntry" where
  "folder n = \<lparr>Name = n, IsDir = True, Type = 2147483648\<rparr>"

definition tableFS :: "(string \<times> DirEntry list \<times> error option) list \<Rightarrow> FS" where
  "tableFS tab =
     \<lparr>Stat = (\<lambda>p. case map_of tab p of
                    Some r \<Rightarrow> Inr \<lparr>fi_Name = p, fi_IsDir = True, fi_ModeType = 2147483648\<rparr>
                  | None \<Rightarrow> Inl (FsError ''file does not exist'')),
      ReadDir = (\<lambda>p. case map_of tab p of
                    Some r \<Rightarrow> r
                  | None \<Rightarrow> ([], Some (FsError ''not a directory'')))\<rparr>"

text \<open>\<^verbatim>\<open>var tree\<close> and \<^verbatim>\<open>var treeWithError\<close> (the package's tests, lines 13-21).\<close>

definition test_tree :: FS where
  "test_tree = tableFS
     [(''.'', [folder ''a'', plain ''b''], None),
      (''a'', [plain ''x'', plain ''y''], None)]"

definition treeWithError :: FS where
  "treeWithError = tableFS
     [(''.'', [folder ''a'', plain ''b''], None),
      (''a'', [plain ''x'', plain ''y''], Some (FsError ''incomplete readdir''))]"

text \<open>The tree of TestWalk (the package's tests, lines 24-32), as a filesystem and as a tree.\<close>

definition walk_tree :: FS where
  "walk_tree = tableFS
     [(''.'', [plain ''a'', folder ''b'', plain ''c'', folder ''d''], None),
      (''b'', [], None),
      (''d'', [plain ''x'', folder ''y'', folder ''z''], None),
      (''d/y'', [], None),
      (''d/z'', [plain ''u'', plain ''v''], None)]"

definition walk_tree_shape :: tree where
  "walk_tree_shape =
     Node (folder ''.'')
       [Node (plain ''a'') [] None,
        Node (folder ''b'') [] None,
        Node (plain ''c'') [] None,
        Node (folder ''d'')
          [Node (plain ''x'') [] None,
           Node (folder ''y'') [] None,
           Node (folder ''z'') [Node (plain ''u'') [] None, Node (plain ''v'') [] None] None]
          None]
       None"

text \<open>The tree of TestMutateAfterEnd (the package's tests, lines 83-90), before and after
  the test adds \<^verbatim>\<open>a/b\<close>.\<close>

definition mutate_tree :: FS where
  "mutate_tree = tableFS [(''.'', [folder ''a''], None), (''a'', [], None)]"

definition mutate_tree_later :: FS where
  "mutate_tree_later = tableFS [(''.'', [folder ''a''], None), (''a'', [plain ''b''], None)]"

text \<open>The clients of the tests: one action at the visits of one path, or at the visits
  of one path that carry an error.\<close>

definition on_path :: "string \<Rightarrow> action \<Rightarrow> client" where
  "on_path q a = (\<lambda>p i e. if p = q then a else Continue)"

definition on_error_at :: "string \<Rightarrow> action \<Rightarrow> client" where
  "on_error_at q a = (\<lambda>p i e. if p = q \<and> e \<noteq> None then a else Continue)"

definition no_pruning :: client where
  "no_pruning = (\<lambda>p i e. Continue)"

text \<open>The walker of TestMutateAfterEnd when Next has returned its last visit, \<^verbatim>\<open>a\<close>.\<close>

definition at_last_visit :: Walker where
  "at_last_visit =
     \<lparr>fsys = mutate_tree,
      cur = \<lparr>path = ''a'', info = Some (folder ''a''), err = None, skipDir = 0, skipPar = 0\<rparr>,
      stack = [], descend = True\<rparr>"

text \<open>The walker of the tests on \<^verbatim>\<open>tree\<close> when Next has returned the root, and
  when it has returned \<^verbatim>\<open>a/x\<close>.\<close>

definition at_root :: Walker where
  "at_root =
     \<lparr>fsys = test_tree,
      cur = \<lparr>path = ''.'', info = Some (folder ''.''), err = None, skipDir = 0, skipPar = 0\<rparr>,
      stack = [], descend = True\<rparr>"

definition at_x :: Walker where
  "at_x =
     \<lparr>fsys = test_tree,
      cur = \<lparr>path = ''a/x'', info = Some (plain ''x''), err = None, skipDir = 2, skipPar = 1\<rparr>,
      stack = [\<lparr>path = ''b'', info = Some (plain ''b''), err = None, skipDir = 0, skipPar = 0\<rparr>,
               \<lparr>path = ''a/y'', info = Some (plain ''y''), err = None, skipDir = 1, skipPar = 1\<rparr>],
      descend = True\<rparr>"

text \<open>The walker on \<^verbatim>\<open>treeWithError\<close> with the listing of the root on its stack.\<close>

definition listed_root :: Walker where
  "listed_root = resume treeWithError (pushed ''.'' 0 0 [folder ''a'', plain ''b''])"

text \<open>The paths a test collects: it walks from the root \<^verbatim>\<open>.\<close> and appends Path at
  every visit.\<close>

definition paths_seen :: "client \<Rightarrow> FS \<Rightarrow> string list option" where
  "paths_seen pol fs = map_option (\<lambda>r. visited_paths (fst r)) (run pol (fst (New fs ''.'')))"

text \<open>The invariant of the stack alone, as it holds between the two halves of Next.\<close>

definition stack_ok :: "Walker \<Rightarrow> bool" where
  "stack_ok w \<longleftrightarrow>
     shaped (cur w) \<and> (\<forall>v \<in> set (stack w). shaped v) \<and>
     (\<forall>i < length (stack w). placed i (stack w ! i))"

section \<open>Evaluation\<close>

lemmas fixture_defs = tableFS_def test_tree_def treeWithError_def walk_tree_def mutate_tree_def
  mutate_tree_later_def plain_def folder_def on_path_def on_error_at_def no_pruning_def
  infoDirEntry_def Join_def Clean_def

lemmas walker_defs = New_def Next_def expand_def pop_def read_and_push_def Path_def Entry_def
  Err_def SkipDir_def SkipParent_def act_def seen_def Let_def

lemma at_last_visit_reached:
  "steps [OpNext, OpNext] (fst (New mutate_tree ''.'')) = Inr at_last_visit"
  by (simp add: walker_defs fixture_defs at_last_visit_def)

lemmas tree_defs = walk_tree_shape_def child_path_def forest_events_def

lemmas replay = paths_seen_def run.simps walker_defs fixture_defs numeral_2_eq_2

lemma at_root_reached: "steps [OpNext] (fst (New test_tree ''.'')) = Inr at_root"
  by (simp add: walker_defs fixture_defs at_root_def)

lemma at_x_reached: "steps [OpNext, OpNext, OpNext] (fst (New test_tree ''.'')) = Inr at_x"
  by (simp add: walker_defs fixture_defs at_x_def numeral_2_eq_2)

lemma at_x_fresh: "prunes_fresh [OpNext, OpNext, OpNext] (fst (New test_tree ''.''))"
  by (simp add: walker_defs fixture_defs numeral_2_eq_2)

subsection \<open>The tests of the package, replayed\<close>

lemma TestWalk:
  "paths_seen no_pruning walk_tree =
     Some [''.'', ''a'', ''b'', ''c'', ''d'', ''d/x'', ''d/y'', ''d/z'', ''d/z/u'', ''d/z/v'']"
  by (simp add: replay)

lemma TestPartialReadDir:
  "paths_seen no_pruning treeWithError = Some [''.'', ''a'', ''a'', ''a/x'', ''a/y'', ''b'']"
  by (simp add: replay)

lemma TestSkipDirOnFile:
  "paths_seen (on_path ''a/x'' CallSkipDir) test_tree = Some [''.'', ''a'', ''a/x'', ''a/y'', ''b'']"
  by (simp add: replay)

lemma TestSkipDirOnPreVisit:
  "paths_seen (on_path ''a'' CallSkipDir) test_tree = Some [''.'', ''a'', ''b'']"
  by (simp add: replay)

lemma TestSkipDirOnDirError:
  "paths_seen (on_error_at ''a'' CallSkipDir) treeWithError = Some [''.'', ''a'', ''a'', ''b'']"
  by (simp add: replay)

lemma TestSkipParentOnFile:
  "paths_seen (on_path ''a/x'' CallSkipParent) test_tree = Some [''.'', ''a'', ''a/x'', ''b'']"
  by (simp add: replay)

lemma TestSkipParentOnPreVisit:
  "paths_seen (on_path ''a'' CallSkipParent) test_tree = Some [''.'', ''a'']"
  by (simp add: replay)

lemma TestSkipParentOnDirError:
  "paths_seen (on_error_at ''a'' CallSkipParent) treeWithError = Some [''.'', ''a'', ''a'']"
  by (simp add: replay)

section \<open>Construction and the first visit\<close>

text \<open>
  Claim C8.  New is a total function: it returns a walker for every filesystem and every
  root.  The first Next on that walker returns true without a filesystem call, Path is
  the root, and Err is the error of Stat if Stat failed (and nil if it did not); Entry
  is the entry made from the FileInfo, absent when Stat failed.
\<close>

theorem New_defers_stat_error:
  "\<exists>w1. Next (fst (New fs root)) = Inr (True, w1, []) \<and> Path w1 = root \<and>
        Entry w1 = (case Stat fs root of Inl e \<Rightarrow> None | Inr f \<Rightarrow> Some (infoDirEntry f)) \<and>
        Err w1 = (case Stat fs root of Inl e \<Rightarrow> Some e | Inr f \<Rightarrow> None)"
  by (simp add: New_def Next_def expand_def pop_def Path_def Err_def Entry_def Let_def)

theorem New_defers_stat_error_witness:
  "\<exists>w1. Next (fst (New test_tree ''missing'')) = Inr (True, w1, []) \<and> Path w1 = ''missing'' \<and>
        Entry w1 = None \<and> Err w1 = Some (FsError ''file does not exist'')"
  using New_defers_stat_error [of test_tree "''missing''"]
  by (simp add: fixture_defs)

text \<open>
  Claim C10.  When Stat of the root fails, New issues the Stat call and nothing else; the
  client loop, whatever the client does at the visit, sees exactly one visit, the root
  with the error of Stat, and no ReadDir call is issued; the first Next returns true and
  the second returns false.
\<close>

theorem failed_root_is_only_visit:
  assumes "Stat fs root = Inl e"
  shows "snd (New fs root) = [StatCall root] \<and>
         run pol (fst (New fs root)) = Some ([Visited root None (Some e)], None) \<and>
         (\<exists>w1 w2. Next (fst (New fs root)) = Inr (True, w1, []) \<and> Next w1 = Inr (False, w2, []))"
  using assms
  by (cases "pol root None (Some e)") (simp_all add: run.simps walker_defs)

theorem failed_root_is_only_visit_witness:
  "snd (New test_tree ''missing'') = [StatCall ''missing''] \<and>
   run no_pruning (fst (New test_tree ''missing'')) =
     Some ([Visited ''missing'' None (Some (FsError ''file does not exist''))], None) \<and>
   (\<exists>w1 w2. Next (fst (New test_tree ''missing'')) = Inr (True, w1, []) \<and>
            Next w1 = Inr (False, w2, []))"
proof -
  have h: "Stat test_tree ''missing'' = Inl (FsError ''file does not exist'')"
    by (simp add: fixture_defs)
  show ?thesis using failed_root_is_only_visit [OF h] by simp
qed

section \<open>The end of the walk\<close>

lemma pop_descend_irrelevant: "pop (w\<lparr>descend := b\<rparr>) = pop w"
  by (simp add: pop_def Let_def)

lemma Next_idle: "idle w \<Longrightarrow> Next w = (case pop w of (b, w2) \<Rightarrow> Inr (b, w2, []))"
  by (auto simp: idle_def Next_def expand_def split: option.splits if_splits)

lemma Next_stuck:
  assumes "stack w = []" "\<not> descend w"
  shows "Next (w\<lparr>fsys := g\<rparr>) = Inr (False, w\<lparr>fsys := g\<rparr>, [])"
  using assms by (simp add: Next_def expand_def pop_def)

lemma Next_False_stuck:
  assumes "Next w = Inr (False, w', cs)"
  shows "stack w' = [] \<and> \<not> descend w'"
  using assms
  by (auto simp: Next_def expand_def pop_def Let_def
      split: if_splits option.splits sum.splits prod.splits)

lemma polls_stuck:
  "stack w = [] \<Longrightarrow> \<not> descend w \<Longrightarrow> polls gs w = replicate (length gs) (False, [])"
proof (induction gs arbitrary: w)
  case Nil
  show ?case by simp
next
  case (Cons g gs)
  have n: "Next (w\<lparr>fsys := g\<rparr>) = Inr (False, w\<lparr>fsys := g\<rparr>, [])"
    using Cons.prems by (rule Next_stuck)
  have "polls gs (w\<lparr>fsys := g\<rparr>) = replicate (length gs) (False, [])"
    using Cons.prems by (intro Cons.IH) simp_all
  with n show ?case by simp
qed

text \<open>
  Claim C5.  Once Next has returned false, every later Next returns false and issues no
  filesystem call, whatever the filesystem has become before each of the calls.
\<close>

theorem Next_false_is_final:
  assumes "Next w = Inr (False, w', cs)"
  shows "polls gs w' = replicate (length gs) (False, [])"
  using Next_False_stuck [OF assms] polls_stuck by blast

theorem Next_false_is_final_witness:
  "Next at_last_visit = Inr (False, at_last_visit\<lparr>descend := False\<rparr>, [ReadDirCall ''a'']) \<and>
   polls [mutate_tree_later, mutate_tree_later] (at_last_visit\<lparr>descend := False\<rparr>) =
     [(False, []), (False, [])]"
proof -
  have h: "Next at_last_visit = Inr (False, at_last_visit\<lparr>descend := False\<rparr>, [ReadDirCall ''a''])"
    by (simp add: walker_defs fixture_defs at_last_visit_def)
  show ?thesis
    using h Next_false_is_final [OF h, of "[mutate_tree_later, mutate_tree_later]"]
    by (simp add: numeral_2_eq_2)
qed

section \<open>The marks of an expansion\<close>

lemma length_pushed: "length (pushed p n b ds) = length ds"
  by (induction ds) simp_all

lemma pushed_snoc:
  "pushed p n b (ds @ [d]) =
     \<lparr>path = Join p (Name d), info = Some d, err = None, skipDir = b, skipPar = n\<rparr> # pushed p n (Suc b) ds"
  by (induction ds) simp_all

lemma push_children_pushed:
  "i \<le> length dir \<Longrightarrow> push_children p dir n i st = st @ pushed p n (length st) (take i dir)"
proof (induction i arbitrary: st)
  case 0
  show ?case by simp
next
  case (Suc i)
  then have i: "i < length dir" by simp
  have "push_children p dir n (Suc i) st =
        (st @ [\<lparr>path = Join p (Name (dir ! i)), info = Some (dir ! i), err = None,
                skipDir = length st, skipPar = n\<rparr>]) @ pushed p n (Suc (length st)) (take i dir)"
    using Suc.IH [of "st @ [\<lparr>path = Join p (Name (dir ! i)), info = Some (dir ! i), err = None,
                skipDir = length st, skipPar = n\<rparr>]"] i by simp
  also have "\<dots> = st @ pushed p n (length st) (take i dir @ [dir ! i])"
    by (simp add: pushed_snoc)
  finally show ?case using i by (simp add: take_Suc_conv_app_nth)
qed

lemma push_children_all:
  "push_children p dir n (length dir) st = st @ pushed p n (length st) dir"
  by (simp add: push_children_pushed)

lemma stack_read_and_push:
  assumes "ReadDir (fsys w) (path (cur w)) = (dir, e)"
  shows "stack (read_and_push w) =
           stack w @ pushed (path (cur w)) (length (stack w)) (length (stack w)) dir @
           (case e of None \<Rightarrow> [] | Some x \<Rightarrow> [(cur w)\<lparr>err := Some x\<rparr>])"
  using assms by (simp add: read_and_push_def push_children_all Let_def split: option.splits)

lemma cur_read_and_push:
  assumes "ReadDir (fsys w) (path (cur w)) = (dir, e)"
  shows "cur (read_and_push w) = (case e of None \<Rightarrow> cur w | Some x \<Rightarrow> (cur w)\<lparr>err := Some x\<rparr>)"
  using assms by (simp add: read_and_push_def Let_def split: option.splits)

lemma other_read_and_push:
  "fsys (read_and_push w) = fsys w" "descend (read_and_push w) = descend w"
  by (simp_all add: read_and_push_def Let_def split: option.splits prod.splits)

lemma pushed_nth:
  "i < length ds \<Longrightarrow>
   pushed p n b ds ! i =
     \<lparr>path = Join p (Name (ds ! (length ds - 1 - i))), info = Some (ds ! (length ds - 1 - i)),
      err = None, skipDir = b + i, skipPar = n\<rparr>"
proof (induction ds arbitrary: i)
  case Nil
  then show ?case by simp
next
  case (Cons d ds)
  show ?case
  proof (cases "i < length ds")
    case True
    then have "pushed p n b (d # ds) ! i = pushed p n b ds ! i"
      by (simp add: nth_append length_pushed)
    moreover have "(d # ds) ! (length (d # ds) - 1 - i) = ds ! (length ds - 1 - i)"
      using True by (simp add: nth_Cons')
    ultimately show ?thesis using Cons.IH [OF True] by simp
  next
    case False
    with Cons.prems have "i = length ds" by simp
    then show ?thesis by (simp add: nth_append length_pushed)
  qed
qed

text \<open>
  Claim C7 says that all children pushed by one expansion carry the same skipDir mark,
  the length of the stack before the expansion.  The code takes \<^verbatim>\<open>len(w.stack)\<close> anew
  at every push.  On the root of the tests' tree the two children are pushed with the
  skipDir marks 0 and 1, on a stack that was empty; their skipPar marks are both 0.
\<close>

theorem children_share_skipDir_counterexample:
  "length (stack at_root) = 0 \<and>
   map path (stack (read_and_push at_root)) = [''b'', ''a''] \<and>
   map skipDir (stack (read_and_push at_root)) = [0, 1] \<and>
   map skipPar (stack (read_and_push at_root)) = [0, 0]"
  by (simp add: walker_defs fixture_defs at_root_def)

text \<open>
  Claim C7, amended.  An expansion leaves the stack below untouched.  The child for
  entry \<open>j\<close> of the listing lies above the children for the later entries; its skipDir
  mark is the length of the stack just before its own push, which is its own index, and
  its skipPar mark is the length of the stack before the expansion.
\<close>

theorem expansion_marks:
  assumes "ReadDir (fsys w) (path (cur w)) = (dir, e)" and "j < length dir"
  shows "take (length (stack w)) (stack (read_and_push w)) = stack w \<and>
         stack (read_and_push w) ! (length (stack w) + (length dir - 1 - j)) =
           \<lparr>path = Join (path (cur w)) (Name (dir ! j)), info = Some (dir ! j), err = None,
            skipDir = length (stack w) + (length dir - 1 - j), skipPar = length (stack w)\<rparr>"
proof -
  let ?k = "length dir - 1 - j"
  have k: "?k < length dir" using assms(2) by simp
  have jj: "length dir - 1 - ?k = j" using assms(2) by simp
  have "stack (read_and_push w) ! (length (stack w) + ?k) =
        pushed (path (cur w)) (length (stack w)) (length (stack w)) dir ! ?k"
    using k by (simp add: stack_read_and_push [OF assms(1)] nth_append length_pushed)
  then show ?thesis
    using pushed_nth [OF k, of "path (cur w)" "length (stack w)" "length (stack w)"] jj
    by (simp add: stack_read_and_push [OF assms(1)])
qed

theorem expansion_marks_witness:
  "take (length (stack at_root)) (stack (read_and_push at_root)) = stack at_root \<and>
   stack (read_and_push at_root) ! 1 =
     \<lparr>path = ''a'', info = Some (folder ''a''), err = None, skipDir = 1, skipPar = 0\<rparr>"
proof -
  have h: "ReadDir (fsys at_root) (path (cur at_root)) = ([folder ''a'', plain ''b''], None)"
    by (simp add: fixture_defs at_root_def)
  have j: "0 < length [folder ''a'', plain ''b'']" by simp
  have "stack at_root = []" by (simp add: at_root_def)
  moreover have "Join (path (cur at_root)) (Name (folder ''a'')) = ''a''"
    by (simp add: fixture_defs at_root_def)
  ultimately show ?thesis using expansion_marks [OF h j] by simp
qed

section \<open>The marks stay within the stack\<close>

lemma marks_ok_iff:
  "marks_ok w \<longleftrightarrow>
     shaped (cur w) \<and> (\<forall>v \<in> set (stack w). shaped v) \<and>
     (\<forall>i < length (stack w). placed i (stack w ! i)) \<and>
     (descend w \<longrightarrow> placed (length (stack w)) (cur w))"
  by (auto simp: marks_ok_def list_all_iff)

lemma marks_ok_New: "marks_ok (fst (New fs root))"
  by (auto simp: marks_ok_iff New_def shaped_def placed_def Let_def split: sum.splits)

lemma marks_ok_pop:
  assumes "stack_ok w"
  shows "marks_ok (snd (pop w))"
proof (cases "stack w = []")
  case True
  then show ?thesis using assms by (simp add: stack_ok_def marks_ok_iff pop_def)
next
  case False
  then have top: "stack w ! (length (stack w) - 1) \<in> set (stack w)" by simp
  have "shaped (stack w ! (length (stack w) - 1))"
    using assms top unfolding stack_ok_def by blast
  moreover have "placed (length (stack w) - 1) (stack w ! (length (stack w) - 1))"
    using assms False by (simp add: stack_ok_def)
  ultimately show ?thesis
    using assms False by (auto simp: stack_ok_def marks_ok_iff pop_def Let_def dest: in_set_takeD)
qed

lemma shaped_pushed: "v \<in> set (pushed p n b ds) \<Longrightarrow> n \<le> b \<Longrightarrow> shaped v"
  by (induction ds) (auto simp: shaped_def)

lemma placed_pushed: "i < length ds \<Longrightarrow> placed (b + i) (pushed p n b ds ! i)"
  by (simp add: pushed_nth placed_def)

lemma stack_ok_read_and_push:
  assumes ok: "marks_ok w" and d: "descend w" and e: "err (cur w) = None"
    and i: "info (cur w) = Some x" "IsDir x"
  shows "stack_ok (read_and_push w)"
proof -
  obtain dir er where rd: "ReadDir (fsys w) (path (cur w)) = (dir, er)"
    by (cases "ReadDir (fsys w) (path (cur w))")
  let ?n = "length (stack w)"
  let ?ps = "pushed (path (cur w)) ?n ?n dir"
  let ?c = "(case er of None \<Rightarrow> [] | Some x \<Rightarrow> [(cur w)\<lparr>err := Some x\<rparr>])"
  have st: "stack (read_and_push w) = stack w @ ?ps @ ?c"
    by (rule stack_read_and_push [OF rd])
  have cu: "cur (read_and_push w) = (case er of None \<Rightarrow> cur w | Some x \<Rightarrow> (cur w)\<lparr>err := Some x\<rparr>)"
    by (rule cur_read_and_push [OF rd])
  from ok d e have here: "skipDir (cur w) = ?n" and sh: "shaped (cur w)"
    by (simp_all add: marks_ok_iff placed_def)
  have shc: "shaped ((cur w)\<lparr>err := Some y\<rparr>)" for y
    using sh i by (simp add: shaped_def)
  have s1: "shaped (cur (read_and_push w))"
    using sh shc by (simp add: cu split: option.splits)
  have s2: "\<forall>v \<in> set (stack (read_and_push w)). shaped v"
    using ok shc by (auto simp: st marks_ok_iff dest: shaped_pushed split: option.splits)
  have s3: "placed k (stack (read_and_push w) ! k)" if k: "k < length (stack (read_and_push w))" for k
  proof -
    consider "k < ?n" | "?n \<le> k" "k < ?n + length dir" | "?n + length dir \<le> k"
      by linarith
    then show ?thesis
    proof cases
      case 1
      then show ?thesis using ok by (simp add: st nth_append marks_ok_iff)
    next
      case 2
      then have "stack (read_and_push w) ! k = ?ps ! (k - ?n)"
        by (simp add: st nth_append length_pushed)
      moreover have "placed (?n + (k - ?n)) (?ps ! (k - ?n))"
        using 2 by (intro placed_pushed) simp
      ultimately show ?thesis using 2 by simp
    next
      case 3
      with k obtain y where y: "er = Some y" and kk: "k = ?n + length dir"
        by (cases er) (simp_all add: st length_pushed)
      then have "stack (read_and_push w) ! k = (cur w)\<lparr>err := Some y\<rparr>"
        by (simp add: st nth_append length_pushed)
      then show ?thesis using here kk by (simp add: placed_def)
    qed
  qed
  show ?thesis unfolding stack_ok_def using s1 s2 s3 by blast
qed

lemma marks_ok_stack_ok: "marks_ok w \<Longrightarrow> stack_ok w"
  by (simp add: marks_ok_iff stack_ok_def)

lemma marks_ok_Next:
  assumes "marks_ok w"
  shows "\<exists>b w' cs. Next w = Inr (b, w', cs) \<and> marks_ok w'"
proof (cases "descend w \<and> err (cur w) = None")
  case False
  then have "Next w = Inr (fst (pop w), snd (pop w), [])"
    by (auto simp: Next_def expand_def split: prod.splits)
  then show ?thesis using marks_ok_pop [OF marks_ok_stack_ok [OF assms]] by blast
next
  case True
  with assms obtain x where x: "info (cur w) = Some x"
    by (auto simp: marks_ok_iff shaped_def)
  show ?thesis
  proof (cases "IsDir x")
    case False
    then have "Next w = Inr (fst (pop w), snd (pop w), [])"
      using True x by (auto simp: Next_def expand_def split: prod.splits)
    then show ?thesis using marks_ok_pop [OF marks_ok_stack_ok [OF assms]] by blast
  next
    case dir: True
    have "Next w = Inr (fst (pop (read_and_push w)), snd (pop (read_and_push w)), [ReadDirCall (path (cur w))])"
      using True x dir by (auto simp: Next_def expand_def split: prod.splits)
    moreover have "stack_ok (read_and_push w)"
      using assms True x dir by (intro stack_ok_read_and_push) simp_all
    ultimately show ?thesis using marks_ok_pop by blast
  qed
qed

lemma marks_ok_take:
  assumes "marks_ok w"
  shows "marks_ok (w\<lparr>descend := False, stack := take k (stack w)\<rparr>)"
  using assms by (auto simp: marks_ok_iff dest: in_set_takeD)

lemma marks_ok_fresh:
  assumes "marks_ok w" "descend w"
  shows "skipPar (cur w) \<le> skipDir (cur w)" "skipDir (cur w) \<le> length (stack w)"
  using assms by (simp_all add: marks_ok_iff shaped_def placed_def)

lemma marks_ok_step:
  assumes "marks_ok w" and "is_prune x \<Longrightarrow> descend w"
  shows "\<exists>w'. step x w = Inr w' \<and> marks_ok w'"
proof (cases x)
  case OpNext
  then show ?thesis using marks_ok_Next [OF assms(1)] by auto
next
  case OpSkipDir
  then show ?thesis
    using assms marks_ok_fresh [of w] marks_ok_take [OF assms(1)] by (simp add: SkipDir_def)
next
  case OpSkipParent
  then show ?thesis
    using assms marks_ok_fresh [of w] marks_ok_take [OF assms(1)] by (simp add: SkipParent_def)
next
  case (OpMutate g)
  then show ?thesis using assms(1) by (simp add: marks_ok_iff)
qed

lemma marks_ok_steps:
  "marks_ok w \<Longrightarrow> prunes_fresh xs w \<Longrightarrow> \<exists>w'. steps xs w = Inr w' \<and> marks_ok w'"
proof (induction xs arbitrary: w)
  case Nil
  then show ?case by simp
next
  case (Cons x xs)
  from Cons.prems have "is_prune x \<Longrightarrow> descend w" by simp
  with Cons.prems(1) obtain w1 where w1: "step x w = Inr w1" "marks_ok w1"
    using marks_ok_step by blast
  with Cons.prems(2) have "prunes_fresh xs w1" by simp
  with Cons.IH [OF w1(2)] w1(1) show ?case by simp
qed

text \<open>
  Claim C9.  Take any sequence of calls of Next, SkipDir and SkipParent on a new walker,
  with any changes of the filesystem in between, in which SkipDir and SkipParent are
  only called on a visit that Next has just returned and that has not been pruned yet.
  No call fails.  In the walker reached, every visit record (the current one and those on
  the stack) has skipPar at most skipDir; and when the current visit may be pruned, both
  its marks are at most the length of the stack, so that SkipDir and SkipParent truncate
  within the stack.
\<close>

theorem marks_within_stack:
  assumes "prunes_fresh xs (fst (New fs root))"
  shows "\<exists>w. steps xs (fst (New fs root)) = Inr w \<and>
             (\<forall>v \<in> set (cur w # stack w). skipPar v \<le> skipDir v) \<and>
             (descend w \<longrightarrow>
                skipDir (cur w) \<le> length (stack w) \<and> skipPar (cur w) \<le> length (stack w) \<and>
                SkipDir w = Inr (w\<lparr>descend := False, stack := take (skipDir (cur w)) (stack w)\<rparr>) \<and>
                SkipParent w = Inr (w\<lparr>descend := False, stack := take (skipPar (cur w)) (stack w)\<rparr>))"
proof -
  obtain w where w: "steps xs (fst (New fs root)) = Inr w" "marks_ok w"
    using marks_ok_steps [OF marks_ok_New assms] by blast
  have "\<forall>v \<in> set (cur w # stack w). skipPar v \<le> skipDir v"
    using w(2) by (auto simp: marks_ok_iff shaped_def)
  moreover have "descend w \<longrightarrow>
                skipDir (cur w) \<le> length (stack w) \<and> skipPar (cur w) \<le> length (stack w) \<and>
                SkipDir w = Inr (w\<lparr>descend := False, stack := take (skipDir (cur w)) (stack w)\<rparr>) \<and>
                SkipParent w = Inr (w\<lparr>descend := False, stack := take (skipPar (cur w)) (stack w)\<rparr>)"
    using marks_ok_fresh [OF w(2)] by (auto simp: SkipDir_def SkipParent_def)
  ultimately show ?thesis using w(1) by blast
qed

theorem marks_within_stack_witness:
  "steps [OpNext, OpNext, OpNext] (fst (New test_tree ''.'')) = Inr at_x \<and> descend at_x \<and>
   skipPar (cur at_x) = 1 \<and> skipDir (cur at_x) = 2 \<and> length (stack at_x) = 2 \<and>
   SkipDir at_x = Inr (at_x\<lparr>descend := False, stack := take (skipDir (cur at_x)) (stack at_x)\<rparr>) \<and>
   SkipParent at_x = Inr (at_x\<lparr>descend := False, stack := take (skipPar (cur at_x)) (stack at_x)\<rparr>)"
proof -
  have d: "descend at_x" by (simp add: at_x_def)
  have m: "skipPar (cur at_x) = 1 \<and> skipDir (cur at_x) = 2 \<and> length (stack at_x) = 2"
    by (simp add: at_x_def)
  show ?thesis
    using marks_within_stack [OF at_x_fresh] at_x_reached d m by auto
qed

section \<open>Pruning on a plain file\<close>

text \<open>
  Claim C6 says that SkipDir and SkipParent are both without effect on a plain file.
  SkipParent is not: in the test TestSkipParentOnFile the client calls it at the file
  \<^verbatim>\<open>a/x\<close> and the sibling \<^verbatim>\<open>a/y\<close> is never visited, while the unpruned walk visits
  it.
\<close>

theorem skip_on_file_is_noop_counterexample:
  "paths_seen (on_path ''a/x'' CallSkipParent) test_tree = Some [''.'', ''a'', ''a/x'', ''b''] \<and>
   paths_seen no_pruning test_tree = Some [''.'', ''a'', ''a/x'', ''a/y'', ''b'']"
  by (simp add: replay)

text \<open>
  Claim C6, amended.  On a visit of a plain file that Next has just returned, SkipDir
  changes nothing but the flag \<open>descend\<close>, the next call of Next does exactly what it
  would have done without the SkipDir, and so does the rest of the walk.  SkipParent
  cuts the stack back to the skipPar mark of the file, which lies within the stack: the
  pending later siblings of the file are dropped.
\<close>

theorem SkipDir_on_file_is_noop:
  assumes "prunes_fresh xs (fst (New fs root))"
    and "steps xs (fst (New fs root)) = Inr w"
    and "descend w" and "info (cur w) = Some d" and "\<not> IsDir d"
  shows "SkipDir w = Inr (w\<lparr>descend := False\<rparr>) \<and>
         Next (w\<lparr>descend := False\<rparr>) = Next w \<and>
         run pol (w\<lparr>descend := False\<rparr>) = run pol w \<and>
         skipPar (cur w) \<le> length (stack w) \<and>
         SkipParent w = Inr (w\<lparr>descend := False, stack := take (skipPar (cur w)) (stack w)\<rparr>)"
proof -
  have ok: "marks_ok w"
    using marks_ok_steps [OF marks_ok_New assms(1)] assms(2) by auto
  have "err (cur w) = None"
    using ok assms(4,5) by (auto simp: marks_ok_iff shaped_def split: option.splits)
  with ok assms(3) have "skipDir (cur w) = length (stack w)"
    by (simp add: marks_ok_iff placed_def)
  then have 1: "SkipDir w = Inr (w\<lparr>descend := False\<rparr>)"
    by (simp add: SkipDir_def)
  have 2: "Next (w\<lparr>descend := False\<rparr>) = Next w"
    using assms(4,5) by (simp add: Next_def expand_def pop_def Let_def)
  have 3: "run pol (w\<lparr>descend := False\<rparr>) = run pol w"
    by (subst (1 2) run.simps) (simp only: 2)
  have 4: "skipPar (cur w) \<le> length (stack w)"
    using marks_ok_fresh [OF ok assms(3)] by simp
  then have 5: "SkipParent w = Inr (w\<lparr>descend := False, stack := take (skipPar (cur w)) (stack w)\<rparr>)"
    by (simp add: SkipParent_def)
  show ?thesis using 1 2 3 4 5 by simp
qed

theorem SkipDir_on_file_is_noop_witness:
  "SkipDir at_x = Inr (at_x\<lparr>descend := False\<rparr>) \<and>
   Next (at_x\<lparr>descend := False\<rparr>) = Next at_x \<and>
   run no_pruning (at_x\<lparr>descend := False\<rparr>) = run no_pruning at_x \<and>
   SkipParent at_x =
     Inr (at_x\<lparr>descend := False,
            stack := [\<lparr>path = ''b'', info = Some (plain ''b''), err = None, skipDir = 0, skipPar = 0\<rparr>]\<rparr>)"
proof -
  have c: "descend at_x" "info (cur at_x) = Some (plain ''x'')" "\<not> IsDir (plain ''x'')"
    by (simp_all add: at_x_def plain_def)
  have t: "take (skipPar (cur at_x)) (stack at_x) =
             [\<lparr>path = ''b'', info = Some (plain ''b''), err = None, skipDir = 0, skipPar = 0\<rparr>]"
    by (simp add: at_x_def)
  show ?thesis
    using SkipDir_on_file_is_noop [OF at_x_fresh at_x_reached c, of no_pruning] by (simp add: t)
qed

section \<open>The walk of a tree\<close>

lemma prepend_Nil: "prepend [] r = r"
  by (cases r) (auto simp: prepend_def)

lemma prepend_Some: "prepend es (Some (es', f)) = Some (es @ es', f)"
  by (simp add: prepend_def)

lemma prepend_prepend: "prepend a (prepend b r) = prepend (a @ b) r"
  by (cases r) (auto simp: prepend_def)

lemma idle_resume: "idle (resume fs s)"
  by (simp add: idle_def resume_def)

lemma resume_simps:
  "stack (resume fs s) = s" "fsys (resume fs s) = fs" "descend (resume fs s) = False"
  by (simp_all add: resume_def)

lemma run_unfold:
  "run pol w =
     (case Next w of
        Inl f \<Rightarrow> Some ([], Some f)
      | Inr (b, w1, cs) \<Rightarrow>
          if \<not> b then Some (map Called cs, None)
          else (case act (pol (Path w1) (Entry w1) (Err w1)) w1 of
                  Inl f \<Rightarrow> Some (map Called cs @ [seen w1], Some f)
                | Inr w2 \<Rightarrow> prepend (map Called cs @ [seen w1]) (run pol w2)))"
  by (subst run.simps) (simp add: prepend_def split: sum.splits)

lemma run_idle_empty: "idle w \<Longrightarrow> stack w = [] \<Longrightarrow> run pol w = Some ([], None)"
  by (subst run_unfold) (simp add: Next_idle pop_def)

lemma run_resume_empty: "run pol (resume fs []) = Some ([], None)"
  by (rule run_idle_empty [OF idle_resume]) (simp add: resume_simps)

lemma pop_snoc:
  "stack w = s @ [v] \<Longrightarrow> pop w = (True, w\<lparr>cur := v, stack := s, descend := True\<rparr>)"
  by (simp add: pop_def Let_def)

lemma run_pop:
  assumes "idle w" and "stack w = s @ [v]"
  shows "run pol w =
           (case act (pol (path v) (info v) (err v)) (w\<lparr>cur := v, stack := s, descend := True\<rparr>) of
              Inl f \<Rightarrow> Some ([Visited (path v) (info v) (err v)], Some f)
            | Inr w2 \<Rightarrow> prepend [Visited (path v) (info v) (err v)] (run pol w2))"
  by (subst run_unfold)
     (simp add: Next_idle [OF assms(1)] pop_snoc [OF assms(2)] Path_def Entry_def Err_def seen_def
        split: sum.splits)

lemma run_idle:
  assumes "idle w"
  shows "run pol w = run pol (resume (fsys w) (stack w))"
proof (cases "stack w" rule: rev_cases)
  case Nil
  then show ?thesis using assms by (simp add: run_idle_empty run_resume_empty)
next
  case (snoc s v)
  have r: "stack (resume (fsys w) (stack w)) = s @ [v]"
    using snoc by (simp add: resume_def)
  have "(resume (fsys w) (stack w))\<lparr>cur := v, stack := s, descend := True\<rparr> =
        w\<lparr>cur := v, stack := s, descend := True\<rparr>"
    by (simp add: resume_def)
  then show ?thesis
    by (simp add: run_pop [OF assms snoc] run_pop [OF idle_resume r])
qed

lemma run_expand:
  assumes "descend w" "err (cur w) = None" "info (cur w) = Some d" "IsDir d"
  shows "run pol w =
           prepend [Called (ReadDirCall (path (cur w)))] (run pol ((read_and_push w)\<lparr>descend := False\<rparr>))"
proof -
  let ?r = "(read_and_push w)\<lparr>descend := False\<rparr>"
  obtain b w2 where p: "pop (read_and_push w) = (b, w2)" by (cases "pop (read_and_push w)")
  have n1: "Next w = Inr (b, w2, [ReadDirCall (path (cur w))])"
    using assms p by (simp add: Next_def expand_def)
  have "idle ?r" by (simp add: idle_def)
  then have n2: "Next ?r = Inr (b, w2, [])"
    using p by (simp add: Next_idle pop_descend_irrelevant)
  show ?thesis
    by (subst (1 2) run_unfold) (simp add: n1 n2 prepend_prepend prepend_Some split: sum.splits)
qed

lemma quiet_append: "quiet pol (a @ b) \<longleftrightarrow> quiet pol a \<and> quiet pol b"
  by (induction pol a rule: quiet.induct) simp_all

lemma forest_events_Nil: "forest_events q [] = []"
  by (simp add: forest_events_def)

lemma forest_events_Cons: "forest_events q (c # cs) = events (child_path q c) c @ forest_events q cs"
  by (simp add: forest_events_def)

lemma forest_events_append: "forest_events q (a @ b) = forest_events q a @ forest_events q b"
  by (simp add: forest_events_def)

text \<open>The walk of the children of one listing, given the walk of each child.\<close>

lemma walk_forest_aux:
  assumes each: "\<And>c w s v. c \<in> set cs \<Longrightarrow> idle w \<Longrightarrow> stack w = s @ [v] \<Longrightarrow>
        path v = child_path q c \<Longrightarrow> info v = Some (entry_of c) \<Longrightarrow> err v = None \<Longrightarrow>
        fsys w = fs \<Longrightarrow> quiet pol (events (child_path q c) c) \<Longrightarrow>
        run pol w = prepend (events (child_path q c) c) (run pol (resume fs s))"
  shows "idle w \<Longrightarrow> stack w = s @ pushed q n b (map entry_of cs) \<Longrightarrow> fsys w = fs \<Longrightarrow>
         quiet pol (forest_events q cs) \<Longrightarrow>
         run pol w = prepend (forest_events q cs) (run pol (resume fs s))"
  using each
proof (induction cs arbitrary: w)
  case Nil
  then show ?case using run_idle [of w pol] by (simp add: forest_events_Nil prepend_Nil)
next
  case (Cons c cs)
  let ?v = "\<lparr>path = Join q (Name (entry_of c)), info = Some (entry_of c), err = None,
             skipDir = b + length (map entry_of cs), skipPar = n\<rparr>"
  let ?s = "s @ pushed q n b (map entry_of cs)"
  have st: "stack w = ?s @ [?v]" using Cons.prems(2) by simp
  have q: "quiet pol (events (child_path q c) c)" "quiet pol (forest_events q cs)"
    using Cons.prems(4) by (simp_all add: forest_events_Cons quiet_append)
  have "run pol w = prepend (events (child_path q c) c) (run pol (resume fs ?s))"
    using Cons.prems(1) st Cons.prems(3) q(1)
    by (intro Cons.prems(5) [of c w ?s ?v]) (simp_all add: child_path_def)
  also have "run pol (resume fs ?s) = prepend (forest_events q cs) (run pol (resume fs s))"
  proof (rule Cons.IH [OF idle_resume _ _ q(2)])
    show "stack (resume fs ?s) = s @ pushed q n b (map entry_of cs)"
      by (simp add: resume_simps)
    show "fsys (resume fs ?s) = fs" by (simp add: resume_simps)
  next
    fix c' w' s' v'
    assume "c' \<in> set cs" "idle w'" "stack w' = s' @ [v']" "path v' = child_path q c'"
      "info v' = Some (entry_of c')" "err v' = None" "fsys w' = fs"
      "quiet pol (events (child_path q c') c')"
    then show "run pol w' = prepend (events (child_path q c') c') (run pol (resume fs s'))"
      using Cons.prems(5) [of c' w' s' v'] by simp
  qed
  finally show ?case by (simp add: prepend_prepend forest_events_Cons)
qed

lemma walk_subtree:
  "represents fs p t \<Longrightarrow> idle w \<Longrightarrow> stack w = s @ [v] \<Longrightarrow> path v = p \<Longrightarrow>
   info v = Some (entry_of t) \<Longrightarrow> err v = None \<Longrightarrow> fsys w = fs \<Longrightarrow> quiet pol (events p t) \<Longrightarrow>
   run pol w = prepend (events p t) (run pol (resume fs s))"
proof (induction t arbitrary: p w s v)
  case (Node d cs e)
  define w1 where "w1 = w\<lparr>cur := v, stack := s, descend := True\<rparr>"
  have w1: "cur w1 = v" "stack w1 = s" "descend w1" "fsys w1 = fs"
    by (simp_all add: w1_def Node.prems(7))
  have v: "path v = p" "info v = Some d" "err v = None"
    using Node.prems(4,5,6) by simp_all
  have pol1: "pol p (Some d) None = Continue" using Node.prems(8) by simp
  have r1: "run pol w = prepend [Visited p (Some d) None] (run pol w1)"
    using run_pop [OF Node.prems(2,3), of pol] by (simp add: v pol1 act_def w1_def)
  show ?case
  proof (cases "IsDir d")
    case False
    have "idle w1" by (simp add: idle_def w1 v False)
    then have "run pol w1 = run pol (resume fs s)"
      using run_idle [of w1 pol] by (simp add: w1)
    with r1 False show ?thesis by simp
  next
    case True
    have rd: "ReadDir (fsys w1) (path (cur w1)) = (map entry_of cs, e)"
      using Node.prems(1) True by (simp add: w1 v)
    have kids: "\<forall>c \<in> set cs. represents fs (child_path p c) c"
      using Node.prems(1) True by simp
    define r where "r = (read_and_push w1)\<lparr>descend := False\<rparr>"
    have r2: "run pol w1 = prepend [Called (ReadDirCall p)] (run pol r)"
      using run_expand [of w1 d pol] True by (simp add: w1 v r_def)
    have idr: "idle r" by (simp add: r_def idle_def)
    have fsr: "fsys r = fs" by (simp add: r_def other_read_and_push w1)
    have str: "stack r = s @ pushed p (length s) (length s) (map entry_of cs) @
                 (case e of None \<Rightarrow> [] | Some x \<Rightarrow> [v\<lparr>err := Some x\<rparr>])"
      using stack_read_and_push [OF rd] by (simp add: r_def w1 v split: option.splits)
    have each: "run pol w' = prepend (events (child_path p c) c) (run pol (resume fs s'))"
      if "c \<in> set cs" "idle w'" "stack w' = s' @ [v']" "path v' = child_path p c"
        "info v' = Some (entry_of c)" "err v' = None" "fsys w' = fs"
        "quiet pol (events (child_path p c) c)" for c w' s' v'
    proof -
      have "represents fs (child_path p c) c" using kids that(1) by blast
      then show ?thesis using that by (intro Node.IH [of c "child_path p c" w' s' v'])
    qed
    have ev: "events p (Node d cs e) =
              [Visited p (Some d) None, Called (ReadDirCall p)] @
              (case e of None \<Rightarrow> [] | Some x \<Rightarrow> [Visited p (Some d) (Some x)]) @ forest_events p cs"
      using True by (simp add: forest_events_def)
    have q8: "quiet pol ([Visited p (Some d) None, Called (ReadDirCall p)] @
              (case e of None \<Rightarrow> [] | Some x \<Rightarrow> [Visited p (Some d) (Some x)]) @ forest_events p cs)"
      using Node.prems(8) by (simp only: ev)
    have qf: "quiet pol (forest_events p cs)"
      using q8 by (simp add: quiet_append)
    show ?thesis
    proof (cases e)
      case None
      have st: "stack r = s @ pushed p (length s) (length s) (map entry_of cs)"
        using str None by simp
      have "run pol r = prepend (forest_events p cs) (run pol (resume fs s))"
        by (rule walk_forest_aux [OF each idr st fsr qf])
      then show ?thesis
        unfolding ev r1 r2 using None by (simp add: prepend_prepend)
    next
      case (Some x)
      have pol2: "pol p (Some d) (Some x) = Continue"
        using q8 by (simp add: quiet_append Some)
      define s2 where "s2 = s @ pushed p (length s) (length s) (map entry_of cs)"
      define v2 where "v2 = v\<lparr>err := Some x\<rparr>"
      have v2: "path v2 = p" "info v2 = Some d" "err v2 = Some x"
        by (simp_all add: v2_def v)
      have st: "stack r = s2 @ [v2]"
        using str Some by (simp add: s2_def v2_def)
      define w3 where "w3 = r\<lparr>cur := v2, stack := s2, descend := True\<rparr>"
      have r3: "run pol r = prepend [Visited p (Some d) (Some x)] (run pol w3)"
        using run_pop [OF idr st, of pol] by (simp add: v2 pol2 act_def w3_def)
      have id3: "idle w3" by (simp add: idle_def w3_def v2)
      have st3: "stack w3 = s @ pushed p (length s) (length s) (map entry_of cs)"
        by (simp add: w3_def s2_def)
      have fs3: "fsys w3 = fs" using fsr by (simp add: w3_def)
      have "run pol w3 = prepend (forest_events p cs) (run pol (resume fs s))"
        by (rule walk_forest_aux [OF each id3 st3 fs3 qf])
      then show ?thesis
        unfolding ev r1 r2 r3 using Some by (simp add: prepend_prepend)
    qed
  qed
qed

lemma walk_forest:
  assumes "\<forall>c \<in> set cs. represents fs (child_path q c) c"
    and "idle w" and "stack w = s @ pushed q n b (map entry_of cs)" and "fsys w = fs"
    and "quiet pol (forest_events q cs)"
  shows "run pol w = prepend (forest_events q cs) (run pol (resume fs s))"
proof (rule walk_forest_aux [OF _ assms(2,3,4,5)])
  fix c w s v
  assume a: "c \<in> set cs" "idle w" "stack w = s @ [v]" "path v = child_path q c"
    "info v = Some (entry_of c)" "err v = None" "fsys w = fs" "quiet pol (events (child_path q c) c)"
  have "represents fs (child_path q c) c" using assms(1) a(1) by blast
  then show "run pol w = prepend (events (child_path q c) c) (run pol (resume fs s))"
    using a by (intro walk_subtree)
qed

lemma visited_paths_append: "visited_paths (a @ b) = visited_paths a @ visited_paths b"
  by (induction a rule: visited_paths.induct) simp_all

lemma visited_paths_concat: "visited_paths (concat xs) = concat (map visited_paths xs)"
  by (induction xs) (simp_all add: visited_paths_append)

lemma visited_paths_events: "error_free t \<Longrightarrow> visited_paths (events p t) = preorder p t"
proof (induction t arbitrary: p)
  case (Node d cs e)
  show ?case
  proof (cases "IsDir d")
    case False
    then show ?thesis by simp
  next
    case True
    with Node.prems have e: "e = None" and k: "\<forall>c \<in> set cs. error_free c" by simp_all
    have meq: "map (\<lambda>c. visited_paths (events (child_path p c) c)) cs =
        map (\<lambda>c. preorder (child_path p c) c) cs"
      using Node.IH k by (intro map_cong) auto
    have "visited_paths (events p (Node d cs e)) =
          p # concat (map (\<lambda>c. visited_paths (events (child_path p c) c)) cs)"
      using True e by (simp add: visited_paths_concat comp_def)
    also have "\<dots> = p # concat (map (\<lambda>c. preorder (child_path p c) c) cs)"
      by (simp only: meq)
    also have "\<dots> = preorder p (Node d cs e)" using True by simp
    finally show ?thesis .
  qed
qed

lemma lex_preorder_sorted: "sorted_listings t \<Longrightarrow> lex_preorder p t = preorder p t"
proof (induction t arbitrary: p)
  case (Node d cs e)
  show ?case
  proof (cases "IsDir d")
    case False
    then show ?thesis by simp
  next
    case True
    with Node.prems have s: "sorted (map (\<lambda>c. Name (entry_of c)) cs)"
      and k: "\<forall>c \<in> set cs. sorted_listings c" by simp_all
    have sk: "sort_key (\<lambda>c. Name (entry_of c)) cs = cs"
      using s by (rule sort_key_id_if_sorted)
    have meq: "map (\<lambda>c. lex_preorder (child_path p c) c) cs =
        map (\<lambda>c. preorder (child_path p c) c) cs"
      using Node.IH k by (intro map_cong) auto
    have "lex_preorder p (Node d cs e) = p # concat (map (\<lambda>c. lex_preorder (child_path p c) c) cs)"
      using True by (simp add: sk)
    also have "\<dots> = p # concat (map (\<lambda>c. preorder (child_path p c) c) cs)"
      by (simp only: meq)
    also have "\<dots> = preorder p (Node d cs e)" using True by simp
    finally show ?thesis .
  qed
qed

lemma quiet_no_pruning: "quiet no_pruning es"
  by (induction es rule: visited_paths.induct) (simp_all add: no_pruning_def)

text \<open>
  Claim C1.  Let Stat of the root succeed and let the filesystem show, at the root, a
  tree in which no listing has an error.  Then the loop that calls Next until it returns
  false, never pruning, ends without a fault; the paths it has visited are the pre-order
  listing of the tree, the root first and the children of a directory in the order of its
  listing.  \<^verbatim>\<open>fs.ReadDir\<close> returns the entries sorted by name, and when the listings
  are sorted this is the lexical pre-order listing.
\<close>

theorem walk_is_preorder:
  assumes "Stat fs root = Inr f" and "represents fs root t" and "entry_of t = infoDirEntry f"
    and "error_free t"
  shows "run no_pruning (fst (New fs root)) = Some (events root t, None) \<and>
         visited_paths (events root t) = preorder root t \<and>
         (sorted_listings t \<longrightarrow> visited_paths (events root t) = lex_preorder root t)"
proof -
  define v where "v = \<lparr>path = root, info = Some (infoDirEntry f), err = None, skipDir = 0, skipPar = 0\<rparr>"
  let ?w = "fst (New fs root)"
  have w: "idle ?w" "stack ?w = [] @ [v]" "fsys ?w = fs"
    using assms(1) by (simp_all add: New_def idle_def v_def)
  have v: "path v = root" "info v = Some (entry_of t)" "err v = None"
    by (simp_all add: v_def assms(3))
  have "run no_pruning ?w = prepend (events root t) (run no_pruning (resume fs []))"
    by (rule walk_subtree [OF assms(2) w(1,2) v w(3) quiet_no_pruning])
  then have "run no_pruning ?w = Some (events root t, None)"
    by (simp add: run_resume_empty prepend_Some)
  then show ?thesis
    using visited_paths_events [OF assms(4)] lex_preorder_sorted by simp
qed

theorem walk_is_preorder_witness:
  "run no_pruning (fst (New walk_tree ''.'')) = Some (events ''.'' walk_tree_shape, None) \<and>
   visited_paths (events ''.'' walk_tree_shape) =
     [''.'', ''a'', ''b'', ''c'', ''d'', ''d/x'', ''d/y'', ''d/z'', ''d/z/u'', ''d/z/v''] \<and>
   lex_preorder ''.'' walk_tree_shape =
     [''.'', ''a'', ''b'', ''c'', ''d'', ''d/x'', ''d/y'', ''d/z'', ''d/z/u'', ''d/z/v'']"
proof -
  have 1: "Stat walk_tree ''.'' = Inr \<lparr>fi_Name = ''.'', fi_IsDir = True, fi_ModeType = 2147483648\<rparr>"
    by (simp add: fixture_defs)
  have 2: "represents walk_tree ''.'' walk_tree_shape"
    by (simp add: fixture_defs tree_defs)
  have 3: "entry_of walk_tree_shape = infoDirEntry \<lparr>fi_Name = ''.'', fi_IsDir = True, fi_ModeType = 2147483648\<rparr>"
    by (simp add: fixture_defs tree_defs)
  have 4: "error_free walk_tree_shape"
    by (simp add: fixture_defs tree_defs)
  have 5: "sorted_listings walk_tree_shape"
    by (simp add: fixture_defs tree_defs)
  have 6: "preorder ''.'' walk_tree_shape =
     [''.'', ''a'', ''b'', ''c'', ''d'', ''d/x'', ''d/y'', ''d/z'', ''d/z/u'', ''d/z/v'']"
    by (simp add: fixture_defs tree_defs)
  have 7: "visited_paths (events ''.'' walk_tree_shape) = lex_preorder ''.'' walk_tree_shape"
    using walk_is_preorder [OF 1 2 3 4] 5 by blast
  have 8: "visited_paths (events ''.'' walk_tree_shape) = preorder ''.'' walk_tree_shape"
    using walk_is_preorder [OF 1 2 3 4] by blast
  have 9: "run no_pruning (fst (New walk_tree ''.'')) = Some (events ''.'' walk_tree_shape, None)"
    using walk_is_preorder [OF 1 2 3 4] by blast
  show ?thesis
    unfolding 7 [symmetric] 8 using 9 6 by simp
qed

lemma listed_root_reached:
  "read_and_push (at_root\<lparr>fsys := treeWithError\<rparr>) =
     at_root\<lparr>fsys := treeWithError, stack := stack listed_root\<rparr>"
  by (simp add: walker_defs fixture_defs at_root_def listed_root_def resume_def)

lemma stack_listed_root:
  "stack listed_root =
     [\<lparr>path = ''b'', info = Some (plain ''b''), err = None, skipDir = 0, skipPar = 0\<rparr>] @
     [\<lparr>path = ''a'', info = Some (folder ''a''), err = None, skipDir = 1, skipPar = 0\<rparr>]"
  by (simp add: listed_root_def resume_def fixture_defs)

lemma run_only_b:
  "run pol (resume treeWithError
      [\<lparr>path = ''b'', info = Some (plain ''b''), err = None, skipDir = 0, skipPar = 0\<rparr>]) =
   Some ([Visited ''b'' (Some (plain ''b'')) None], None)"
  by (cases "pol ''b'' (Some (plain ''b'')) None")
     (simp_all add: run.simps walker_defs resume_def plain_def)

text \<open>
  Claim C2.  Let the walker be about to visit a directory \<open>p\<close> whose listing returns
  the entries of \<open>cs\<close> together with the error \<open>x\<close>, the entries showing trees of
  their own.  Without pruning the walk goes on with: the visit of \<open>p\<close> without an error,
  the read of \<open>p\<close>, the visit of \<open>p\<close> with the error \<open>x\<close>, the walks of the children in
  the order of the listing, and then whatever the stack \<open>s\<close> below held.  These are the
  only two visits of the directory.
\<close>

theorem failed_listing_visited_twice:
  assumes "represents (fsys w) p (Node d cs (Some x))" and "IsDir d"
    and "idle w" and "stack w = s @ [v]"
    and "path v = p" and "info v = Some d" and "err v = None"
  shows "run no_pruning w =
           prepend ([Visited p (Some d) None, Called (ReadDirCall p), Visited p (Some d) (Some x)] @
                    forest_events p cs)
             (run no_pruning (resume (fsys w) s))"
proof -
  have "run no_pruning w =
        prepend (events p (Node d cs (Some x))) (run no_pruning (resume (fsys w) s))"
    by (rule walk_subtree [OF assms(1,3,4,5) _ assms(7) refl quiet_no_pruning])
       (simp add: assms(6))
  then show ?thesis using assms(2) by (simp add: forest_events_def)
qed

theorem failed_listing_visited_twice_witness:
  "run no_pruning listed_root =
     Some ([Visited ''a'' (Some (folder ''a'')) None,
            Called (ReadDirCall ''a''),
            Visited ''a'' (Some (folder ''a'')) (Some (FsError ''incomplete readdir'')),
            Visited ''a/x'' (Some (plain ''x'')) None,
            Visited ''a/y'' (Some (plain ''y'')) None,
            Visited ''b'' (Some (plain ''b'')) None], None)"
proof -
  have 1: "represents (fsys listed_root) ''a''
             (Node (folder ''a'') [Node (plain ''x'') [] None, Node (plain ''y'') [] None]
                (Some (FsError ''incomplete readdir'')))"
    by (simp add: listed_root_def resume_def fixture_defs child_path_def)
  have 2: "IsDir (folder ''a'')" by (simp add: folder_def)
  have 3: "idle listed_root" by (simp add: listed_root_def idle_resume)
  have 4: "forest_events ''a'' [Node (plain ''x'') [] None, Node (plain ''y'') [] None] =
           [Visited ''a/x'' (Some (plain ''x'')) None, Visited ''a/y'' (Some (plain ''y'')) None]"
    by (simp add: forest_events_def child_path_def fixture_defs)
  have 5: "fsys listed_root = treeWithError" by (simp add: listed_root_def resume_def)
  show ?thesis
    using failed_listing_visited_twice [OF 1 2 3 stack_listed_root]
    by (simp add: 4 5 run_only_b prepend_def)
qed

section \<open>Pruning\<close>

lemma pushed_append:
  "pushed p n b (xs @ ys) = pushed p n b ys @ pushed p n (b + length ys) xs"
  by (induction xs) (simp_all add: add.assoc add.commute)

lemma pushed_middle:
  "pushed q n b (xs @ d # ys) =
     (pushed q n b ys @
      [\<lparr>path = Join q (Name d), info = Some d, err = None, skipDir = b + length ys, skipPar = n\<rparr>]) @
     pushed q n (b + Suc (length ys)) xs"
  using pushed_append [of q n b xs "d # ys"] by simp

lemma run_pop_prune:
  assumes "idle w" and "stack w = s2 @ [v]"
    and "pol (path v) (info v) (err v) = CallSkipDir \<and> k = skipDir v \<or>
         pol (path v) (info v) (err v) = CallSkipParent \<and> k = skipPar v"
    and "k \<le> length s2"
  shows "run pol w = prepend [Visited (path v) (info v) (err v)] (run pol (resume (fsys w) (take k s2)))"
proof -
  define w1 where "w1 = w\<lparr>cur := v, stack := s2, descend := True\<rparr>"
  define w2 where "w2 = w1\<lparr>descend := False, stack := take k s2\<rparr>"
  have a: "act (pol (path v) (info v) (err v)) w1 = Inr w2"
    using assms(3,4) by (auto simp: act_def SkipDir_def SkipParent_def w1_def w2_def)
  have "idle w2" by (simp add: idle_def w2_def)
  then have "run pol w2 = run pol (resume (fsys w) (take k s2))"
    using run_idle [of w2 pol] by (simp add: w2_def w1_def)
  then show ?thesis
    using run_pop [OF assms(1,2), of pol] a by (simp add: w1_def)
qed

lemma run_visit_error:
  assumes "idle w" and "stack w = s2 @ [v]"
    and "path v = p" "info v = Some d" "err v = None" "IsDir d"
    and "pol p (Some d) None = Continue"
    and "ReadDir (fsys w) p = (dir, Some x)"
  shows "run pol w =
           prepend [Visited p (Some d) None, Called (ReadDirCall p)]
             (run pol (resume (fsys w)
                (s2 @ pushed p (length s2) (length s2) dir @ [v\<lparr>err := Some x\<rparr>])))"
proof -
  define w1 where "w1 = w\<lparr>cur := v, stack := s2, descend := True\<rparr>"
  have w1: "cur w1 = v" "stack w1 = s2" "descend w1" "fsys w1 = fsys w"
    by (simp_all add: w1_def)
  have r1: "run pol w = prepend [Visited p (Some d) None] (run pol w1)"
    using run_pop [OF assms(1,2), of pol] by (simp add: assms(3,4,5,7) act_def w1_def)
  define r where "r = (read_and_push w1)\<lparr>descend := False\<rparr>"
  have rd: "ReadDir (fsys w1) (path (cur w1)) = (dir, Some x)"
    using assms(8) by (simp add: w1 assms(3))
  have r2: "run pol w1 = prepend [Called (ReadDirCall p)] (run pol r)"
    using run_expand [of w1 d pol] by (simp add: w1 assms(3,4,5,6) r_def)
  have "idle r" by (simp add: r_def idle_def)
  moreover have "fsys r = fsys w" by (simp add: r_def other_read_and_push w1)
  moreover have "stack r = s2 @ pushed p (length s2) (length s2) dir @ [v\<lparr>err := Some x\<rparr>]"
    using stack_read_and_push [OF rd] by (simp add: r_def w1 assms(3))
  ultimately have "run pol r =
      run pol (resume (fsys w) (s2 @ pushed p (length s2) (length s2) dir @ [v\<lparr>err := Some x\<rparr>]))"
    using run_idle [of r pol] by simp
  then show ?thesis unfolding r1 r2 by (simp add: prepend_prepend)
qed

lemma run_visit_pruned:
  assumes "idle w" and "stack w = s2 @ [v]"
    and "path v = p" "info v = Some d" "err v = None"
    and "k \<le> length s2"
    and "a = CallSkipDir \<and> k = skipDir v \<or> a = CallSkipParent \<and> k = skipPar v"
    and "pol p (Some d) None = a \<and> evs = [Visited p (Some d) None] \<or>
         IsDir d \<and> pol p (Some d) None = Continue \<and> snd (ReadDir (fsys w) p) = Some x \<and>
         pol p (Some d) (Some x) = a \<and>
         evs = [Visited p (Some d) None, Called (ReadDirCall p), Visited p (Some d) (Some x)]"
  shows "run pol w = prepend evs (run pol (resume (fsys w) (take k s2)))"
  using assms(8)
proof (elim disjE conjE)
  assume "pol p (Some d) None = a" "evs = [Visited p (Some d) None]"
  then show ?thesis
    using run_pop_prune [OF assms(1,2), of pol k] assms(3,4,5,6,7) by simp
next
  assume h: "IsDir d" "pol p (Some d) None = Continue" "snd (ReadDir (fsys w) p) = Some x"
    "pol p (Some d) (Some x) = a"
    "evs = [Visited p (Some d) None, Called (ReadDirCall p), Visited p (Some d) (Some x)]"
  obtain dir where rd: "ReadDir (fsys w) p = (dir, Some x)"
    using h(3) by (cases "ReadDir (fsys w) p") simp
  define s3 where "s3 = s2 @ pushed p (length s2) (length s2) dir"
  define v2 where "v2 = v\<lparr>err := Some x\<rparr>"
  have r1: "run pol w = prepend [Visited p (Some d) None, Called (ReadDirCall p)]
             (run pol (resume (fsys w) (s3 @ [v2])))"
    using run_visit_error [of w s2 v p d pol dir x] assms(1,2,3,4,5) h(1,2) rd
    by (simp add: s3_def v2_def)
  have v2: "path v2 = p" "info v2 = Some d" "err v2 = Some x" "skipDir v2 = skipDir v"
    "skipPar v2 = skipPar v"
    by (simp_all add: v2_def assms(3,4))
  have "run pol (resume (fsys w) (s3 @ [v2])) =
        prepend [Visited (path v2) (info v2) (err v2)] (run pol (resume (fsys (resume (fsys w) (s3 @ [v2]))) (take k s3)))"
    using assms(6,7) h(4)
    by (intro run_pop_prune [OF idle_resume]) (auto simp: resume_simps v2 s3_def)
  moreover have "take k s3 = take k s2" using assms(6) by (simp add: s3_def)
  ultimately show ?thesis unfolding r1 by (simp add: prepend_prepend v2 resume_simps h(5))
qed

text \<open>
  Claim C3.  Let the stack hold, above \<open>s\<close>, the entries of one listing of the
  directory \<open>q\<close>: the trees \<open>pre\<close>, the directory \<open>d\<close> and the trees \<open>post\<close>.  The
  client lets the visits of \<open>pre\<close> and \<open>post\<close> pass and calls SkipDir at \<open>d\<close>, either
  at its first visit or, having let that pass, at its second visit with the error of the
  failed read.  Then the walk consists of the walks of \<open>pre\<close>, the visit or the two
  visits of \<open>d\<close> (with the one read between the two, and no read when SkipDir is called
  at the first), the complete walks of the later siblings \<open>post\<close>, and the walk of what
  \<open>s\<close> held.  Nothing below \<open>d\<close> is visited, and \<open>d\<close> is not read after the SkipDir.
\<close>

theorem SkipDir_skips_subtree:
  assumes "idle w"
    and "stack w = s @ pushed q (length s) (length s) (map entry_of pre @ d # map entry_of post)"
    and "IsDir d" and "p = Join q (Name d)"
    and "\<forall>c \<in> set (pre @ post). represents (fsys w) (child_path q c) c"
    and "quiet pol (forest_events q pre)" and "quiet pol (forest_events q post)"
    and "pol p (Some d) None = CallSkipDir \<and> evs = [Visited p (Some d) None] \<or>
         pol p (Some d) None = Continue \<and> snd (ReadDir (fsys w) p) = Some x \<and>
         pol p (Some d) (Some x) = CallSkipDir \<and>
         evs = [Visited p (Some d) None, Called (ReadDirCall p), Visited p (Some d) (Some x)]"
  shows "run pol w =
           prepend (forest_events q pre @ evs @ forest_events q post) (run pol (resume (fsys w) s))"
proof -
  define s2 where "s2 = s @ pushed q (length s) (length s) (map entry_of post)"
  define v where "v = \<lparr>path = p, info = Some d, err = None,
                       skipDir = length s + length post, skipPar = length s\<rparr>"
  have st: "stack w = (s2 @ [v]) @ pushed q (length s) (length s + Suc (length post)) (map entry_of pre)"
    using assms(2) by (simp add: pushed_middle s2_def v_def assms(4))
  have len: "length s2 = length s + length post" by (simp add: s2_def length_pushed)
  have 1: "run pol w = prepend (forest_events q pre) (run pol (resume (fsys w) (s2 @ [v])))"
    using assms(5) by (intro walk_forest [OF _ assms(1) st _ assms(6)]) simp_all
  have 2: "run pol (resume (fsys w) (s2 @ [v])) = prepend evs (run pol (resume (fsys w) (take (length s2) s2)))"
    using run_visit_pruned [OF idle_resume, of "fsys w" "s2 @ [v]" s2 v p d "length s2" CallSkipDir pol evs x]
      assms(3,8) by (simp add: resume_simps v_def len)
  have 3: "run pol (resume (fsys w) s2) = prepend (forest_events q post) (run pol (resume (fsys w) s))"
    using assms(5) by (intro walk_forest [OF _ idle_resume _ _ assms(7)]) (simp_all add: resume_simps s2_def)
  show ?thesis unfolding 1 2 using 3 by (simp add: prepend_prepend)
qed

theorem SkipDir_skips_subtree_witness:
  "run (on_error_at ''a'' CallSkipDir) listed_root =
     Some ([Visited ''a'' (Some (folder ''a'')) None,
            Called (ReadDirCall ''a''),
            Visited ''a'' (Some (folder ''a'')) (Some (FsError ''incomplete readdir'')),
            Visited ''b'' (Some (plain ''b'')) None], None)"
proof -
  let ?pol = "on_error_at ''a'' CallSkipDir"
  let ?evs = "[Visited ''a'' (Some (folder ''a'')) None, Called (ReadDirCall ''a''),
            Visited ''a'' (Some (folder ''a'')) (Some (FsError ''incomplete readdir''))]"
  have 1: "idle listed_root" by (simp add: listed_root_def idle_resume)
  have 2: "stack listed_root = [] @ pushed ''.'' (length ([]::visit list)) (length ([]::visit list))
             (map entry_of [] @ folder ''a'' # map entry_of [Node (plain ''b'') [] None])"
    by (simp add: listed_root_def resume_def)
  have 3: "IsDir (folder ''a'')" by (simp add: folder_def)
  have 4: "''a'' = Join ''.'' (Name (folder ''a''))" by (simp add: fixture_defs)
  have 5: "\<forall>c \<in> set ([] @ [Node (plain ''b'') [] None]). represents (fsys listed_root) (child_path ''.'' c) c"
    by (simp add: plain_def)
  have 6: "quiet ?pol (forest_events ''.'' [])" by (simp add: forest_events_def)
  have 7: "quiet ?pol (forest_events ''.'' [Node (plain ''b'') [] None])"
    by (simp add: forest_events_def child_path_def fixture_defs)
  have 8: "?pol ''a'' (Some (folder ''a'')) None = CallSkipDir \<and> ?evs = [Visited ''a'' (Some (folder ''a'')) None] \<or>
         ?pol ''a'' (Some (folder ''a'')) None = Continue \<and>
         snd (ReadDir (fsys listed_root) ''a'') = Some (FsError ''incomplete readdir'') \<and>
         ?pol ''a'' (Some (folder ''a'')) (Some (FsError ''incomplete readdir'')) = CallSkipDir \<and>
         ?evs = [Visited ''a'' (Some (folder ''a'')) None, Called (ReadDirCall ''a''),
                 Visited ''a'' (Some (folder ''a'')) (Some (FsError ''incomplete readdir''))]"
    by (simp add: listed_root_def resume_def fixture_defs)
  have 9: "forest_events ''.'' [Node (plain ''b'') [] None] = [Visited ''b'' (Some (plain ''b'')) None]"
    by (simp add: forest_events_def child_path_def fixture_defs)
  show ?thesis
    using SkipDir_skips_subtree [OF 1 2 3 4 5 6 7 8]
    by (simp add: 9 forest_events_Nil run_resume_empty prepend_Some)
qed

text \<open>
  Claim C4.  Let the stack hold, above \<open>s\<close>, the entries of one listing of the
  directory \<open>q\<close>: the trees \<open>pre\<close>, the entry \<open>d\<close> and the later entries \<open>post\<close>.  The
  client lets the visits of \<open>pre\<close> pass and calls SkipParent at \<open>d\<close>, either at its
  first visit or, \<open>d\<close> being a directory whose read fails, at its second visit.  Then
  the walk consists of the walks of \<open>pre\<close>, the visit or the two visits of \<open>d\<close>, and the
  walk of what \<open>s\<close> held, the pending items of the ancestors: nothing below \<open>d\<close> and
  none of the later siblings \<open>post\<close> is visited.
\<close>

theorem SkipParent_skips_siblings:
  assumes "idle w"
    and "stack w = s @ pushed q (length s) (length s) (map entry_of pre @ d # post)"
    and "p = Join q (Name d)"
    and "\<forall>c \<in> set pre. represents (fsys w) (child_path q c) c"
    and "quiet pol (forest_events q pre)"
    and "pol p (Some d) None = CallSkipParent \<and> evs = [Visited p (Some d) None] \<or>
         IsDir d \<and> pol p (Some d) None = Continue \<and> snd (ReadDir (fsys w) p) = Some x \<and>
         pol p (Some d) (Some x) = CallSkipParent \<and>
         evs = [Visited p (Some d) None, Called (ReadDirCall p), Visited p (Some d) (Some x)]"
  shows "run pol w = prepend (forest_events q pre @ evs) (run pol (resume (fsys w) s))"
proof -
  define s2 where "s2 = s @ pushed q (length s) (length s) post"
  define v where "v = \<lparr>path = p, info = Some d, err = None,
                       skipDir = length s + length post, skipPar = length s\<rparr>"
  have st: "stack w = (s2 @ [v]) @ pushed q (length s) (length s + Suc (length post)) (map entry_of pre)"
    using assms(2) by (simp add: pushed_middle s2_def v_def assms(3))
  have 1: "run pol w = prepend (forest_events q pre) (run pol (resume (fsys w) (s2 @ [v])))"
    using assms(4) by (intro walk_forest [OF _ assms(1) st _ assms(5)]) simp_all
  have 2: "run pol (resume (fsys w) (s2 @ [v])) = prepend evs (run pol (resume (fsys w) (take (length s) s2)))"
    using run_visit_pruned [OF idle_resume, of "fsys w" "s2 @ [v]" s2 v p d "length s" CallSkipParent pol evs x]
      assms(6) by (simp add: resume_simps v_def s2_def)
  show ?thesis unfolding 1 2 by (simp add: prepend_prepend s2_def)
qed

theorem SkipParent_skips_siblings_witness:
  "run (on_error_at ''a'' CallSkipParent) listed_root =
     Some ([Visited ''a'' (Some (folder ''a'')) None,
            Called (ReadDirCall ''a''),
            Visited ''a'' (Some (folder ''a'')) (Some (FsError ''incomplete readdir''))], None)"
proof -
  let ?pol = "on_error_at ''a'' CallSkipParent"
  let ?evs = "[Visited ''a'' (Some (folder ''a'')) None, Called (ReadDirCall ''a''),
            Visited ''a'' (Some (folder ''a'')) (Some (FsError ''incomplete readdir''))]"
  have 1: "idle listed_root" by (simp add: listed_root_def idle_resume)
  have 2: "stack listed_root = [] @ pushed ''.'' (length ([]::visit list)) (length ([]::visit list))
             (map entry_of [] @ folder ''a'' # [plain ''b''])"
    by (simp add: listed_root_def resume_def)
  have 4: "''a'' = Join ''.'' (Name (folder ''a''))" by (simp add: fixture_defs)
  have 5: "\<forall>c \<in> set []. represents (fsys listed_root) (child_path ''.'' c) c"
    by simp
  have 6: "quiet ?pol (forest_events ''.'' [])" by (simp add: forest_events_def)
  have 8: "?pol ''a'' (Some (folder ''a'')) None = CallSkipParent \<and> ?evs = [Visited ''a'' (Some (folder ''a'')) None] \<or>
         IsDir (folder ''a'') \<and> ?pol ''a'' (Some (folder ''a'')) None = Continue \<and>
         snd (ReadDir (fsys listed_root) ''a'') = Some (FsError ''incomplete readdir'') \<and>
         ?pol ''a'' (Some (folder ''a'')) (Some (FsError ''incomplete readdir'')) = CallSkipParent \<and>
         ?evs = [Visited ''a'' (Some (folder ''a'')) None, Called (ReadDirCall ''a''),
                 Visited ''a'' (Some (folder ''a'')) (Some (FsError ''incomplete readdir''))]"
    by (simp add: listed_root_def resume_def fixture_defs)
  show ?thesis
    using SkipParent_skips_siblings [OF 1 2 4 5 6 8]
    by (simp add: forest_events_Nil run_resume_empty prepend_Some)
qed

end
